theory Spec2Isabelle
  imports Complex_Main "HOL-Library.Word"
begin

section \<open>Gaussian blur and unsharp-mask sharpening (effects.go)\<close>

text \<open>
  The embedding follows \<^verbatim>\<open>effects.go\<close>. Values of Go's \<^verbatim>\<open>float64\<close> are modelled by the
  real numbers they stand for: rounding, overflow, underflow and NaN of IEEE arithmetic
  are outside the model. Go's \<^verbatim>\<open>int\<close> is modelled by \<open>int\<close> and \<open>nat\<close> (no overflow: the
  indices are bounded by the image size), \<^verbatim>\<open>uint8\<close> by \<open>8 word\<close>. The parallel helper runs
  the body once per index on disjoint parts of the destination; it is modelled by the
  sequential loop over the index range.
\<close>

subsection \<open>Data model\<close>

type_synonym uint8 = "8 word"

text \<open>
  \<^verbatim>\<open>image.NRGBA\<close> as built by \<^verbatim>\<open>image.NewNRGBA(image.Rect(0, 0, w, h))\<close>: the samples
  \<open>Pix\<close>, row-major, four per pixel, and the size of the rectangle. The sample type is a
  parameter, so that the same passes can be read over exact real samples.
\<close>

record 'a nrgba =
  Pix :: "'a list"
  Dx :: nat
  Dy :: nat

definition Stride :: "'a nrgba \<Rightarrow> nat" where
  "Stride img = 4 * Dx img"

definition NewNRGBA :: "nat \<Rightarrow> nat \<Rightarrow> ('a::zero) nrgba" where
  "NewNRGBA w h = \<lparr>Pix = replicate (4 * w * h) 0, Dx = w, Dy = h\<rparr>"

definition wf_image :: "'a nrgba \<Rightarrow> bool" where
  "wf_image img \<longleftrightarrow> length (Pix img) = 4 * Dx img * Dy img"

text \<open>The sample of channel \<open>c\<close> (0 red, 1 green, 2 blue, 3 alpha) of the pixel at \<open>(x, y)\<close>.\<close>

definition sample :: "'a nrgba \<Rightarrow> nat \<Rightarrow> nat \<Rightarrow> nat \<Rightarrow> 'a" where
  "sample img x y c = Pix img ! (y * Stride img + x * 4 + c)"

subsection \<open>Helpers of the package that effects.go calls\<close>

text \<open>
  Modelled from the spec: the Scanline Sampler (\<^verbatim>\<open>newScanner\<close>, \<^verbatim>\<open>scan\<close>) is not in
  \<^verbatim>\<open>effects.go\<close>. \<open>scan img x1 y1 x2 y2\<close> returns the pixels of the rectangle
  \<open>[x1, x2) \<times> [y1, y2)\<close>, row by row, four samples per pixel, in the order red, green,
  blue, alpha. The source image is taken in that format already.
\<close>

definition scan :: "'a nrgba \<Rightarrow> nat \<Rightarrow> nat \<Rightarrow> nat \<Rightarrow> nat \<Rightarrow> 'a list" where
  "scan img x1 y1 x2 y2 =
     concat (map (\<lambda>y. take (4 * (x2 - x1)) (drop (y * Stride img + x1 * 4) (Pix img))) [y1..<y2])"

text \<open>
  Modelled from the spec: \<^verbatim>\<open>Clone\<close> is not in \<^verbatim>\<open>effects.go\<close>; it returns an unfiltered
  copy of the image, of the same size.
\<close>

definition Clone :: "'a nrgba \<Rightarrow> 'a nrgba" where
  "Clone img = \<lparr>Pix = scan img 0 0 (Dx img) (Dy img), Dx = Dx img, Dy = Dy img\<rparr>"

text \<open>
  Modelled from the spec: \<^verbatim>\<open>clamp\<close> is not in \<^verbatim>\<open>effects.go\<close>; it rounds a floating-point
  value to the nearest integer and clamps it to the 8-bit range.
\<close>

definition clamp :: "real \<Rightarrow> uint8" where
  "clamp x = (let v = \<lfloor>x + 1 / 2\<rfloor> in
                if v > 255 then 255 else if v > 0 then word_of_int v else 0)"

text \<open>Modelled from the spec: \<^verbatim>\<open>absint\<close> is not in \<^verbatim>\<open>effects.go\<close>; the absolute value.\<close>

definition absint :: "int \<Rightarrow> int" where
  "absint i = (if i < 0 then - i else i)"

text \<open>The conversion \<^verbatim>\<open>float64(v)\<close> of a sample.\<close>

definition float64 :: "uint8 \<Rightarrow> real" where
  "float64 v = real (unat v)"

text \<open>Go's \<^verbatim>\<open>copy(dst[off:], src)\<close>: as many elements as both slices hold.\<close>

definition copy_at :: "'a list \<Rightarrow> nat \<Rightarrow> 'a list \<Rightarrow> 'a list" where
  "copy_at dst off src =
     (let n = min (length dst - off) (length src)
      in take off dst @ take n src @ drop (off + n) dst)"

subsection \<open>The kernel\<close>

definition gaussianBlurKernel :: "real \<Rightarrow> real \<Rightarrow> real" where
  "gaussianBlurKernel x sigma = exp (- (x * x) / (2 * sigma * sigma)) / (sigma * sqrt (2 * pi))"

text \<open>Lines 24 to 29 of \<^verbatim>\<open>Blur\<close>: the radius, the table and the loop that fills it.\<close>

definition kernelRadius :: "real \<Rightarrow> int" where
  "kernelRadius sigma = \<lceil>sigma * 3\<rceil>"

definition makeKernel :: "real \<Rightarrow> real list" where
  "makeKernel sigma =
     (let radius = kernelRadius sigma;
          kern = replicate (nat (radius + 1)) 0
      in foldl (\<lambda>kern i. kern[nat i := gaussianBlurKernel (real_of_int i) sigma])
           kern [0..radius])"

subsection \<open>One pixel of a one-dimensional pass\<close>

text \<open>The bounds of the neighbour loop (lines 48 to 55 and 100 to 107).\<close>

definition windowMin :: "int \<Rightarrow> int \<Rightarrow> int" where
  "windowMin x radius = (let min = x - radius in if min < 0 then 0 else min)"

definition windowMax :: "int \<Rightarrow> int \<Rightarrow> int \<Rightarrow> int" where
  "windowMax x radius n = (let max = x + radius in if max > n - 1 then n - 1 else max)"

text \<open>The neighbour loop (lines 57 to 67 and 109 to 120): the sums \<open>(r, g, b, a, wsum)\<close>.\<close>

definition accumulate ::
  "real list \<Rightarrow> real list \<Rightarrow> int \<Rightarrow> int \<Rightarrow> int \<Rightarrow> real \<times> real \<times> real \<times> real \<times> real" where
  "accumulate kern scanLineF x mn mx =
     foldl (\<lambda>(r, g, b, a, wsum) ix.
              let i = ix * 4;
                  weight = kern ! nat (absint (x - ix));
                  wsum = wsum + weight;
                  wa = scanLineF ! nat (i + 3) * weight
              in (r + scanLineF ! nat (i + 0) * wa,
                  g + scanLineF ! nat (i + 1) * wa,
                  b + scanLineF ! nat (i + 2) * wa,
                  a + wa, wsum))
           (0, 0, 0, 0, 0) [mn..mx]"

text \<open>
  The values handed to \<^verbatim>\<open>clamp\<close> for the pixel at position \<open>x\<close> of a line of \<open>n\<close> pixels
  (lines 48 to 77 and 100 to 131): \<open>r\<close>, \<open>g\<close>, \<open>b\<close> and \<open>a / wsum\<close>.
\<close>

definition blurPixel :: "real list \<Rightarrow> real list \<Rightarrow> int \<Rightarrow> int \<Rightarrow> real \<times> real \<times> real \<times> real" where
  "blurPixel kern scanLineF n x =
     (let radius = int (length kern) - 1;
          (r, g, b, a, wsum) =
             accumulate kern scanLineF x (windowMin x radius) (windowMax x radius n);
          (r, g, b) = (if a \<noteq> 0 then (r / a, g / a, b / a) else (r, g, b))
      in (r, g, b, a / wsum))"

text \<open>
  The divisors of the divisions that one pixel performs: \<open>a\<close> three times when the test
  \<^verbatim>\<open>a != 0\<close> passes, and \<open>wsum\<close> once.
\<close>

definition blurPixelDivisors :: "real list \<Rightarrow> real list \<Rightarrow> int \<Rightarrow> int \<Rightarrow> real list" where
  "blurPixelDivisors kern scanLineF n x =
     (let radius = int (length kern) - 1;
          (r, g, b, a, wsum) =
             accumulate kern scanLineF x (windowMin x radius) (windowMax x radius n)
      in (if a \<noteq> 0 then [a, a, a] else []) @ [wsum])"

subsection \<open>The two passes\<close>

text \<open>
  \<^verbatim>\<open>blurHorizontal\<close> with the two sample conversions as parameters: \<open>toF\<close> where the source
  converts with \<^verbatim>\<open>float64(v)\<close>, \<open>fromF\<close> where it writes \<^verbatim>\<open>clamp(...)\<close>.
\<close>

definition blurHorizontalWith ::
  "('a \<Rightarrow> real) \<Rightarrow> (real \<Rightarrow> 'a) \<Rightarrow> ('a::zero) nrgba \<Rightarrow> real list \<Rightarrow> 'a nrgba" where
  "blurHorizontalWith toF fromF img kern =
     (let w = Dx img; h = Dy img;
          dst = NewNRGBA w h
      in foldl (\<lambda>dst y.
           let scanLine = scan img 0 y w (y + 1);
               scanLineF = map toF scanLine;
               scanLine = foldl (\<lambda>scanLine x.
                            let idx = x * 4;
                                (r, g, b, a) = blurPixel kern scanLineF (int w) (int x)
                            in scanLine[idx := fromF r, idx + 1 := fromF g,
                                        idx + 2 := fromF b, idx + 3 := fromF a])
                          scanLine [0..<w]
           in dst\<lparr>Pix := copy_at (Pix dst) (y * Stride dst) scanLine\<rparr>)
         dst [0..<h])"

definition blurVerticalWith ::
  "('a \<Rightarrow> real) \<Rightarrow> (real \<Rightarrow> 'a) \<Rightarrow> ('a::zero) nrgba \<Rightarrow> real list \<Rightarrow> 'a nrgba" where
  "blurVerticalWith toF fromF img kern =
     (let w = Dx img; h = Dy img;
          dst = NewNRGBA w h
      in foldl (\<lambda>dst x.
           let scanLine = scan img x 0 (x + 1) h;
               scanLineF = map toF scanLine
           in foldl (\<lambda>dst y.
                let (r, g, b, a) = blurPixel kern scanLineF (int h) (int y);
                    j = y * Stride dst + x * 4
                in dst\<lparr>Pix := (Pix dst)[j + 0 := fromF r, j + 1 := fromF g,
                                        j + 2 := fromF b, j + 3 := fromF a]\<rparr>)
              dst [0..<h])
         dst [0..<w])"

definition blurHorizontal :: "uint8 nrgba \<Rightarrow> real list \<Rightarrow> uint8 nrgba" where
  "blurHorizontal = blurHorizontalWith float64 clamp"

definition blurVertical :: "uint8 nrgba \<Rightarrow> real list \<Rightarrow> uint8 nrgba" where
  "blurVertical = blurVerticalWith float64 clamp"

text \<open>The passes over exact real samples: no conversion and no quantization.\<close>

definition blurHorizontal_exact :: "real nrgba \<Rightarrow> real list \<Rightarrow> real nrgba" where
  "blurHorizontal_exact = blurHorizontalWith (\<lambda>v. v) (\<lambda>v. v)"

definition blurVertical_exact :: "real nrgba \<Rightarrow> real list \<Rightarrow> real nrgba" where
  "blurVertical_exact = blurVerticalWith (\<lambda>v. v) (\<lambda>v. v)"

subsection \<open>Blur and Sharpen\<close>

definition Blur :: "uint8 nrgba \<Rightarrow> real \<Rightarrow> uint8 nrgba" where
  "Blur img sigma =
     (if sigma \<le> 0 then Clone img
      else let kern = makeKernel sigma
           in blurVertical (blurHorizontal img kern) kern)"

text \<open>The value written for one sample by \<^verbatim>\<open>Sharpen\<close> (lines 161 to 167).\<close>

definition sharpenSample :: "uint8 \<Rightarrow> uint8 \<Rightarrow> uint8" where
  "sharpenSample s bl =
     (let val = push_bit 1 (uint s) - uint bl;
          val = (if val < 0 then 0 else if val > 255 then 255 else val)
      in word_of_int val)"

definition Sharpen :: "uint8 nrgba \<Rightarrow> real \<Rightarrow> uint8 nrgba" where
  "Sharpen img sigma =
     (if sigma \<le> 0 then Clone img
      else let w = Dx img; h = Dy img;
               dst = NewNRGBA w h;
               blurred = Blur img sigma
           in foldl (\<lambda>dst y.
                let scanLine = scan img 0 y w (y + 1);
                    j = y * Stride dst
                in fst (foldl (\<lambda>(dst, j) i.
                          (dst\<lparr>Pix := (Pix dst)[j := sharpenSample (scanLine ! i) (Pix blurred ! j)]\<rparr>,
                           j + 1))
                        (dst, j) [0..<w * 4]))
              dst [0..<h])"

subsection \<open>Notions used to state the properties\<close>

text \<open>The four values of a pixel as a list, indexed by the channel.\<close>

definition quad :: "'a \<times> 'a \<times> 'a \<times> 'a \<Rightarrow> 'a list" where
  "quad p = (case p of (r, g, b, a) \<Rightarrow> [r, g, b, a])"

text \<open>
  The neighbours that the spec retains for the position \<open>p\<close> of a line of \<open>n\<close> pixels with
  the radius \<open>R\<close>: the range from \<open>max 0 (p - R)\<close> to \<open>min (n - 1) (p + R)\<close>.
\<close>

definition window :: "int \<Rightarrow> int \<Rightarrow> int \<Rightarrow> int set" where
  "window n R p = {max 0 (p - R)..min (n - 1) (p + R)}"

text \<open>
  A line of pixels as a function of the position and the channel: the row \<open>y\<close> and the
  column \<open>x\<close> of an image, converted by \<open>toF\<close>.
\<close>

definition rowLine :: "('a \<Rightarrow> real) \<Rightarrow> 'a nrgba \<Rightarrow> nat \<Rightarrow> int \<Rightarrow> nat \<Rightarrow> real" where
  "rowLine toF img y = (\<lambda>i c. toF (sample img (nat i) y c))"

definition colLine :: "('a \<Rightarrow> real) \<Rightarrow> 'a nrgba \<Rightarrow> nat \<Rightarrow> int \<Rightarrow> nat \<Rightarrow> real" where
  "colLine toF img x = (\<lambda>j c. toF (sample img x (nat j) c))"

text \<open>
  The sums of the spec over a set \<open>S\<close> of neighbours of the position \<open>p\<close>: with
  \<open>wa = alpha[i] * kernel[|p - i|]\<close>, the sum of \<open>wa\<close>, the sum of \<open>value[i] * wa\<close> for a
  channel, and the sum of the weights \<open>kernel[|p - i|]\<close>.
\<close>

definition alphaSum :: "(int \<Rightarrow> nat \<Rightarrow> real) \<Rightarrow> real list \<Rightarrow> int set \<Rightarrow> int \<Rightarrow> real" where
  "alphaSum L kern S p = (\<Sum>i\<in>S. L i 3 * kern ! nat \<bar>p - i\<bar>)"

definition colorSum :: "(int \<Rightarrow> nat \<Rightarrow> real) \<Rightarrow> real list \<Rightarrow> int set \<Rightarrow> int \<Rightarrow> nat \<Rightarrow> real" where
  "colorSum L kern S p c = (\<Sum>i\<in>S. L i c * (L i 3 * kern ! nat \<bar>p - i\<bar>))"

definition weightSum :: "real list \<Rightarrow> int set \<Rightarrow> int \<Rightarrow> real" where
  "weightSum kern S p = (\<Sum>i\<in>S. kern ! nat \<bar>p - i\<bar>)"

section \<open>Lists and loops\<close>

lemma block_div_mod:
  fixes i m h :: nat
  assumes "m * h \<le> i" "i < m * h + m"
  shows "i div m = h" "i mod m = i - m * h"
proof -
  obtain j where j: "i = j + h * m" "j < m"
    using assms by (metis add.commute le_Suc_ex mult.commute nat_add_left_cancel_less)
  then show "i div m = h" "i mod m = i - m * h" by simp_all
qed

lemma concat_blocks_length:
  "(\<And>y. y < h \<Longrightarrow> length (f y) = m) \<Longrightarrow> length (concat (map f [0..<h])) = m * h"
  by (induction h) simp_all

lemma concat_blocks_nth:
  "(\<And>y. y < h \<Longrightarrow> length (f y) = m) \<Longrightarrow> i < m * h \<Longrightarrow>
     concat (map f [0..<h]) ! i = f (i div m) ! (i mod m)"
proof (induction h)
  case 0
  then show ?case by simp
next
  case (Suc h)
  have len: "length (concat (map f [0..<h])) = m * h"
    using Suc.prems(1) by (simp add: concat_blocks_length)
  show ?case
  proof (cases "i < m * h")
    case True
    then show ?thesis using Suc len by (simp add: nth_append)
  next
    case False
    then have "m * h \<le> i" by simp
    moreover have "i < m * h + m" using Suc.prems(2) by simp
    ultimately have "i div m = h" "i mod m = i - m * h"
      by (rule block_div_mod)+
    with False len show ?thesis by (simp add: nth_append)
  qed
qed

lemma hline_length:
  "length (foldl (\<lambda>sl x. let idx = x * 4; (r, g, b, a) = P x
                 in sl[idx := F r, idx + 1 := F g, idx + 2 := F b, idx + 3 := F a]) sl [0..<n]) = length sl"
  by (induction n) (simp_all add: Let_def split: prod.splits)

lemma write4_nth:
  assumes "j + 3 < length sl" "k < length sl"
  shows "sl[j := r, j + 1 := g, j + 2 := b, j + 3 := a] ! k =
     (if j \<le> k \<and> k < j + 4 then [r, g, b, a] ! (k - j) else sl ! k)"
proof (cases "j \<le> k \<and> k < j + 4")
  case True
  then consider "k = j" | "k = j + 1" | "k = j + 2" | "k = j + 3" by linarith
  then show ?thesis
    using assms by cases (simp_all add: nth_list_update)
next
  case False
  then show ?thesis by (auto simp: nth_list_update)
qed

lemma hline_nth:
  "4 * n \<le> length sl \<Longrightarrow> k < length sl \<Longrightarrow>
   foldl (\<lambda>sl x. let idx = x * 4; (r, g, b, a) = P x
                 in sl[idx := F r, idx + 1 := F g, idx + 2 := F b, idx + 3 := F a]) sl [0..<n] ! k
   = (if k < 4 * n then F (quad (P (k div 4)) ! (k mod 4)) else sl ! k)"
proof (induction n)
  case 0
  then show ?case by simp
next
  case (Suc n)
  let ?sl = "foldl (\<lambda>sl x. let idx = x * 4; (r, g, b, a) = P x
                 in sl[idx := F r, idx + 1 := F g, idx + 2 := F b, idx + 3 := F a]) sl [0..<n]"
  obtain r g b a where P: "P n = (r, g, b, a)" by (cases "P n") auto
  have len: "length ?sl = length sl" by (rule hline_length)
  have IH: "?sl ! k = (if k < 4 * n then F (quad (P (k div 4)) ! (k mod 4)) else sl ! k)"
    using Suc by simp
  have step: "foldl (\<lambda>sl x. let idx = x * 4; (r, g, b, a) = P x
                 in sl[idx := F r, idx + 1 := F g, idx + 2 := F b, idx + 3 := F a]) sl [0..<Suc n]
      = ?sl[n * 4 := F r, n * 4 + 1 := F g, n * 4 + 2 := F b, n * 4 + 3 := F a]"
    using P by (simp add: Let_def)
  have w: "?sl[n * 4 := F r, n * 4 + 1 := F g, n * 4 + 2 := F b, n * 4 + 3 := F a] ! k =
     (if n * 4 \<le> k \<and> k < n * 4 + 4 then [F r, F g, F b, F a] ! (k - n * 4) else ?sl ! k)"
    using Suc.prems len by (intro write4_nth) simp_all
  show ?case
  proof (cases "n * 4 \<le> k \<and> k < n * 4 + 4")
    case True
    then have "4 * n \<le> k" "k < 4 * n + 4" by simp_all
    then have dm: "k div 4 = n" "k mod 4 = k - 4 * n" by (rule block_div_mod)+
    from True consider "k = n * 4" | "k = n * 4 + 1" | "k = n * 4 + 2" | "k = n * 4 + 3" by linarith
    then have "[F r, F g, F b, F a] ! (k - n * 4) = F ([r, g, b, a] ! (k - n * 4))"
      by cases simp_all
    with True dm P show ?thesis unfolding step w by (simp add: quad_def mult.commute)
  next
    case False
    then show ?thesis unfolding step w using IH by auto
  qed
qed

section \<open>Sample indices\<close>

lemma pixel_index_inj:
  fixes w :: nat
  assumes "x < w" "x' < w" "y * w + x = y' * w + x'"
  shows "y = y' \<and> x = x'"
proof -
  have "(x + y * w) div w = (x' + y' * w) div w" "(x + y * w) mod w = (x' + y' * w) mod w"
    using assms(3) by (simp_all add: add.commute)
  then show ?thesis using assms(1,2) by simp
qed

lemma sample_index_inj:
  fixes w :: nat
  assumes "x < w" "x' < w" "c < 4" "c' < 4"
    and "y * (4 * w) + x * 4 + c = y' * (4 * w) + x' * 4 + c'"
  shows "y = y' \<and> x = x' \<and> c = c'"
proof -
  have "4 * (y * w + x) + c = 4 * (y' * w + x') + c'"
    using assms(5) by (simp add: algebra_simps)
  with assms(3,4) have "y * w + x = y' * w + x'" "c = c'" by arith+
  with pixel_index_inj [OF assms(1,2)] show ?thesis by simp
qed

lemma sample_index_bound:
  fixes w :: nat
  assumes "x < w" "y < h" "c < 4"
  shows "y * (4 * w) + x * 4 + c < 4 * w * h"
proof -
  have "Suc y * w \<le> h * w" using assms(2) by (intro mult_le_mono1) simp
  then have "y * w + w \<le> w * h" by (simp add: mult.commute)
  with assms(1,3) have "4 * (y * w + x) + c < 4 * (w * h)" by arith
  then show ?thesis by (simp add: algebra_simps)
qed

lemma row_bound:
  fixes w :: nat
  assumes "y < h"
  shows "y * (4 * w) + 4 * w \<le> 4 * w * h"
proof -
  have "Suc y * (4 * w) \<le> h * (4 * w)" using assms by (intro mult_le_mono1) simp
  then show ?thesis by (simp add: algebra_simps)
qed

section \<open>The scanner\<close>

lemma scan_row:
  "scan img 0 y w (Suc y) = take (4 * w) (drop (y * Stride img) (Pix img))"
  by (simp add: scan_def)

lemma scan_row_length:
  assumes "wf_image img" "y < Dy img"
  shows "length (scan img 0 y (Dx img) (Suc y)) = 4 * Dx img"
  using assms row_bound [OF assms(2), of "Dx img"]
  by (simp add: scan_row wf_image_def Stride_def)

lemma scan_row_nth:
  assumes "wf_image img" "y < Dy img" "i < 4 * Dx img"
  shows "scan img 0 y (Dx img) (Suc y) ! i = Pix img ! (y * Stride img + i)"
  using assms row_bound [OF assms(2), of "Dx img"]
  by (simp add: scan_row wf_image_def Stride_def)

lemma scan_col_block:
  assumes "wf_image img" "x < Dx img" "y < Dy img"
  shows "length (take 4 (drop (y * Stride img + x * 4) (Pix img))) = 4"
  using assms sample_index_bound [OF assms(2,3), of 3]
  by (simp add: wf_image_def Stride_def)

lemma scan_col_length:
  assumes "wf_image img" "x < Dx img"
  shows "length (scan img x 0 (Suc x) (Dy img)) = 4 * Dy img"
  unfolding scan_def using scan_col_block [OF assms]
  by (simp add: concat_blocks_length [where m = 4])

lemma scan_col_nth:
  assumes "wf_image img" "x < Dx img" "y < Dy img" "c < 4"
  shows "scan img x 0 (Suc x) (Dy img) ! (y * 4 + c) = sample img x y c"
proof -
  have i: "y * 4 + c < 4 * Dy img" using assms(3,4) by simp
  have dm: "(y * 4 + c) div 4 = y" "(y * 4 + c) mod 4 = c" using assms(4) by simp_all
  have "scan img x 0 (Suc x) (Dy img) ! (y * 4 + c) =
        take 4 (drop (y * Stride img + x * 4) (Pix img)) ! c"
    unfolding scan_def using scan_col_block [OF assms(1,2)] i dm
    by (simp add: concat_blocks_nth [where m = 4])
  also have "\<dots> = sample img x y c"
    using assms sample_index_bound [OF assms(2,3,4)]
    by (simp add: sample_def wf_image_def Stride_def)
  finally show ?thesis .
qed

section \<open>Writing a line into the destination\<close>

lemma copy_at_length:
  "off + length src \<le> length dst \<Longrightarrow> length (copy_at dst off src) = length dst"
  by (auto simp: copy_at_def Let_def min_def)

lemma copy_at_nth:
  assumes "off + length src \<le> length dst" "k < length dst"
  shows "copy_at dst off src ! k =
           (if off \<le> k \<and> k < off + length src then src ! (k - off) else dst ! k)"
proof -
  have m: "min (length dst - off) (length src) = length src" using assms(1) by simp
  show ?thesis using assms unfolding copy_at_def Let_def m
    by (auto simp: nth_append)
qed

section \<open>The horizontal pass, sample by sample\<close>

lemma hpass_outer:
  fixes row :: "nat \<Rightarrow> ('a::zero) list"
  assumes len: "\<And>y. y < h \<Longrightarrow> length (row y) = 4 * w"
  shows "n \<le> h \<Longrightarrow>
    (let D = foldl (\<lambda>dst y. dst\<lparr>Pix := copy_at (Pix dst) (y * Stride dst) (row y)\<rparr>)
               (NewNRGBA w h) [0..<n]
     in Dx D = w \<and> Dy D = h \<and> length (Pix D) = 4 * w * h \<and>
        (\<forall>y i. y < n \<longrightarrow> i < 4 * w \<longrightarrow> Pix D ! (y * (4 * w) + i) = row y ! i))"
proof (induction n)
  case 0
  then show ?case by (simp add: NewNRGBA_def)
next
  case (Suc n)
  define D where "D = foldl (\<lambda>dst y. dst\<lparr>Pix := copy_at (Pix dst) (y * Stride dst) (row y)\<rparr>)
               (NewNRGBA w h) [0..<n]"
  have IH: "Dx D = w" "Dy D = h" "length (Pix D) = 4 * w * h"
    "\<And>y i. y < n \<Longrightarrow> i < 4 * w \<Longrightarrow> Pix D ! (y * (4 * w) + i) = row y ! i"
    using Suc unfolding D_def Let_def by simp_all
  have n: "n < h" using Suc.prems by simp
  have fits: "n * (4 * w) + length (row n) \<le> length (Pix D)"
    using row_bound [OF n, of w] len [OF n] IH(3) by simp
  define D' where "D' = D\<lparr>Pix := copy_at (Pix D) (n * Stride D) (row n)\<rparr>"
  have step: "foldl (\<lambda>dst y. dst\<lparr>Pix := copy_at (Pix dst) (y * Stride dst) (row y)\<rparr>)
               (NewNRGBA w h) [0..<Suc n] = D'"
    by (simp add: D_def D'_def)
  have S: "Stride D = 4 * w" by (simp add: Stride_def IH)
  have "Pix D' ! (y * (4 * w) + i) = row y ! i" if "y < Suc n" "i < 4 * w" for y i
  proof -
    have "y < h" using that n by simp
    then have k: "y * (4 * w) + i < length (Pix D)"
      using row_bound [of y h w] that(2) IH(3) by simp
    show ?thesis
    proof (cases "y = n")
      case True
      then show ?thesis
        using that fits k len [OF n] by (simp add: D'_def S copy_at_nth)
    next
      case False
      then have yn: "y < n" using that by simp
      then have "Suc y * (4 * w) \<le> n * (4 * w)" by (intro mult_le_mono1) simp
      then have "\<not> n * (4 * w) \<le> y * (4 * w) + i" using that(2) by simp
      then show ?thesis
        using fits k IH(4) [OF yn that(2)] by (simp add: D'_def S copy_at_nth)
    qed
  qed
  moreover have "Dx D' = w" "Dy D' = h" "length (Pix D') = 4 * w * h"
    using IH fits by (simp_all add: D'_def S copy_at_length)
  ultimately show ?case unfolding step Let_def by blast
qed

lemma blurHorizontalWith_props:
  fixes img :: "('a::zero) nrgba"
  assumes "wf_image img"
  shows "Dx (blurHorizontalWith toF fromF img kern) = Dx img"
    and "Dy (blurHorizontalWith toF fromF img kern) = Dy img"
    and "wf_image (blurHorizontalWith toF fromF img kern)"
    and "\<And>x y c. x < Dx img \<Longrightarrow> y < Dy img \<Longrightarrow> c < 4 \<Longrightarrow>
          sample (blurHorizontalWith toF fromF img kern) x y c =
            fromF (quad (blurPixel kern (map toF (scan img 0 y (Dx img) (Suc y)))
                     (int (Dx img)) (int x)) ! c)"
proof -
  define w where "w = Dx img"
  define h where "h = Dy img"
  define row where "row = (\<lambda>y. foldl (\<lambda>scanLine x.
                            let idx = x * 4;
                                (r, g, b, a) = blurPixel kern (map toF (scan img 0 y w (Suc y))) (int w) (int x)
                            in scanLine[idx := fromF r, idx + 1 := fromF g,
                                        idx + 2 := fromF b, idx + 3 := fromF a])
                          (scan img 0 y w (Suc y)) [0..<w])"
  have eq: "blurHorizontalWith toF fromF img kern =
     foldl (\<lambda>dst y. dst\<lparr>Pix := copy_at (Pix dst) (y * Stride dst) (row y)\<rparr>) (NewNRGBA w h) [0..<h]"
    by (simp add: blurHorizontalWith_def Let_def row_def w_def h_def)
  have rlen: "length (row y) = 4 * w" if "y < h" for y
    unfolding row_def hline_length using that assms by (simp add: scan_row_length w_def h_def)
  note O = hpass_outer [of h row w h, OF rlen, unfolded Let_def, folded eq, simplified]
  show "Dx (blurHorizontalWith toF fromF img kern) = Dx img"
    and "Dy (blurHorizontalWith toF fromF img kern) = Dy img"
    and "wf_image (blurHorizontalWith toF fromF img kern)"
    using O by (simp_all add: w_def h_def wf_image_def)
  fix x y c :: nat assume xyc: "x < Dx img" "y < Dy img" "c < 4"
  then have i: "x * 4 + c < 4 * w" by (simp add: w_def)
  have dm: "(x * 4 + c) div 4 = x" "(x * 4 + c) mod 4 = c" using xyc(3) by simp_all
  have "sample (blurHorizontalWith toF fromF img kern) x y c = row y ! (x * 4 + c)"
    using O xyc i by (simp add: sample_def Stride_def w_def h_def add.assoc)
  also have "\<dots> = fromF (quad (blurPixel kern (map toF (scan img 0 y w (Suc y))) (int w) (int x)) ! c)"
    unfolding row_def using i dm assms xyc(2)
    by (subst hline_nth) (simp_all add: scan_row_length w_def)
  finally show "sample (blurHorizontalWith toF fromF img kern) x y c =
            fromF (quad (blurPixel kern (map toF (scan img 0 y (Dx img) (Suc y)))
                     (int (Dx img)) (int x)) ! c)"
    by (simp add: w_def)
qed

section \<open>The vertical pass, sample by sample\<close>

lemma vpass_inner:
  fixes dst :: "'a nrgba"
  assumes x: "x < w" and dst: "Dx dst = w" "Dy dst = h" "length (Pix dst) = 4 * w * h"
  shows "n \<le> h \<Longrightarrow>
    (let D = foldl (\<lambda>dst y.
                let (r, g, b, a) = P y;
                    j = y * Stride dst + x * 4
                in dst\<lparr>Pix := (Pix dst)[j + 0 := F r, j + 1 := F g,
                                        j + 2 := F b, j + 3 := F a]\<rparr>) dst [0..<n]
     in Dx D = w \<and> Dy D = h \<and> length (Pix D) = 4 * w * h \<and>
        (\<forall>x' y' c. x' < w \<longrightarrow> y' < h \<longrightarrow> c < 4 \<longrightarrow>
           sample D x' y' c = (if x' = x \<and> y' < n then F (quad (P y') ! c) else sample dst x' y' c)))"
proof (induction n)
  case 0
  then show ?case using dst by simp
next
  case (Suc n)
  let ?body = "\<lambda>dst y.
                let (r, g, b, a) = P y;
                    j = y * Stride dst + x * 4
                in dst\<lparr>Pix := (Pix dst)[j + 0 := F r, j + 1 := F g,
                                        j + 2 := F b, j + 3 := F a]\<rparr>"
  define D where "D = foldl ?body dst [0..<n]"
  have IH: "Dx D = w" "Dy D = h" "length (Pix D) = 4 * w * h"
    "\<And>x' y' c. x' < w \<Longrightarrow> y' < h \<Longrightarrow> c < 4 \<Longrightarrow>
       sample D x' y' c = (if x' = x \<and> y' < n then F (quad (P y') ! c) else sample dst x' y' c)"
    using Suc unfolding D_def Let_def by simp_all
  have n: "n < h" using Suc.prems by simp
  obtain r g b a where P: "P n = (r, g, b, a)" by (cases "P n") auto
  define j where "j = n * (4 * w) + x * 4"
  define D' where "D' = D\<lparr>Pix := (Pix D)[j := F r, j + 1 := F g, j + 2 := F b, j + 3 := F a]\<rparr>"
  have "foldl ?body dst [0..<Suc n] = ?body D n"
    unfolding D_def by (simp only: upt_Suc_append le0 foldl_append foldl.simps)
  also have "\<dots> = D'"
    using P by (simp add: D'_def j_def Stride_def IH(1) Let_def)
  finally have step: "foldl ?body dst [0..<Suc n] = D'" .
  have j3: "j + 3 < length (Pix D)"
    using sample_index_bound [OF x n, of 3] IH(3) by (simp add: j_def)
  have "sample D' x' y' c = (if x' = x \<and> y' < Suc n then F (quad (P y') ! c) else sample dst x' y' c)"
    if xyc: "x' < w" "y' < h" "c < 4" for x' y' c
  proof -
    define k where "k = y' * (4 * w) + x' * 4 + c"
    have k: "k < length (Pix D)"
      using sample_index_bound [OF xyc] IH(3) by (simp add: k_def)
    have s: "sample D' x' y' c =
        (if j \<le> k \<and> k < j + 4 then [F r, F g, F b, F a] ! (k - j) else Pix D ! k)"
      using write4_nth [OF j3 k] by (simp add: sample_def D'_def Stride_def IH(1) k_def)
    have old: "Pix D ! k = sample D x' y' c"
      by (simp add: sample_def Stride_def IH(1) k_def)
    show ?thesis
    proof (cases "x' = x \<and> y' = n")
      case True
      then have kj: "k = j + c" by (simp add: k_def j_def)
      from xyc(3) consider "c = 0" | "c = 1" | "c = 2" | "c = 3" by linarith
      then have "[F r, F g, F b, F a] ! c = F ([r, g, b, a] ! c)" by cases simp_all
      then show ?thesis unfolding s kj using True xyc(3) P by (simp add: quad_def)
    next
      case False
      have "\<not> (j \<le> k \<and> k < j + 4)"
      proof
        assume a: "j \<le> k \<and> k < j + 4"
        define c' where "c' = k - j"
        have "c' < 4" "k = j + c'" using a unfolding c'_def by linarith+
        then have "y' * (4 * w) + x' * 4 + c = n * (4 * w) + x * 4 + c'"
          by (simp add: k_def j_def)
        from sample_index_inj [OF xyc(1) x xyc(3) \<open>c' < 4\<close> this] False
        show False by simp
      qed
      then show ?thesis unfolding s old using False IH(4) [OF xyc] by auto
    qed
  qed
  moreover have "Dx D' = w" "Dy D' = h" "length (Pix D') = 4 * w * h"
    using IH by (simp_all add: D'_def)
  ultimately show ?case unfolding step by (simp only: Let_def) blast
qed

lemma vpass_outer:
  fixes F :: "real \<Rightarrow> ('a::zero)"
  shows "m \<le> w \<Longrightarrow>
    (let D = foldl (\<lambda>dst x. foldl (\<lambda>dst y.
                let (r, g, b, a) = P x y;
                    j = y * Stride dst + x * 4
                in dst\<lparr>Pix := (Pix dst)[j + 0 := F r, j + 1 := F g,
                                        j + 2 := F b, j + 3 := F a]\<rparr>) dst [0..<h])
               (NewNRGBA w h) [0..<m]
     in Dx D = w \<and> Dy D = h \<and> length (Pix D) = 4 * w * h \<and>
        (\<forall>x y c. x < m \<longrightarrow> y < h \<longrightarrow> c < 4 \<longrightarrow> sample D x y c = F (quad (P x y) ! c)))"
proof (induction m)
  case 0
  then show ?case by (simp add: NewNRGBA_def)
next
  case (Suc m)
  let ?col = "\<lambda>dst x. foldl (\<lambda>dst y.
                let (r, g, b, a) = P x y;
                    j = y * Stride dst + x * 4
                in dst\<lparr>Pix := (Pix dst)[j + 0 := F r, j + 1 := F g,
                                        j + 2 := F b, j + 3 := F a]\<rparr>) dst [0..<h]"
  define D where "D = foldl ?col (NewNRGBA w h) [0..<m]"
  have IH: "Dx D = w" "Dy D = h" "length (Pix D) = 4 * w * h"
    "\<And>x y c. x < m \<Longrightarrow> y < h \<Longrightarrow> c < 4 \<Longrightarrow> sample D x y c = F (quad (P x y) ! c)"
    using Suc unfolding D_def Let_def by simp_all
  have m: "m < w" using Suc.prems by simp
  have step: "foldl ?col (NewNRGBA w h) [0..<Suc m] = ?col D m"
    unfolding D_def by (simp only: upt_Suc_append le0 foldl_append foldl.simps)
  note I = vpass_inner [OF m IH(1,2,3), of h "P m" F, unfolded Let_def, simplified]
  have "sample (?col D m) x y c = F (quad (P x y) ! c)" if "x < Suc m" "y < h" "c < 4" for x y c
  proof (cases "x = m")
    case True
    then show ?thesis using I that m by (simp add: Let_def)
  next
    case False
    then have "x < m" using that by simp
    then show ?thesis using I that m IH(4) False by (simp add: Let_def)
  qed
  moreover have "Dx (?col D m) = w" "Dy (?col D m) = h" "length (Pix (?col D m)) = 4 * w * h"
    using I by (simp_all add: Let_def)
  ultimately show ?case unfolding step by (simp only: Let_def) blast
qed

lemma blurVerticalWith_props:
  fixes img :: "('a::zero) nrgba"
  shows "Dx (blurVerticalWith toF fromF img kern) = Dx img"
    and "Dy (blurVerticalWith toF fromF img kern) = Dy img"
    and "wf_image (blurVerticalWith toF fromF img kern)"
    and "\<And>x y c. x < Dx img \<Longrightarrow> y < Dy img \<Longrightarrow> c < 4 \<Longrightarrow>
          sample (blurVerticalWith toF fromF img kern) x y c =
            fromF (quad (blurPixel kern (map toF (scan img x 0 (Suc x) (Dy img)))
                     (int (Dy img)) (int y)) ! c)"
proof -
  note O = vpass_outer [of "Dx img" "Dx img"
      "\<lambda>x y. blurPixel kern (map toF (scan img x 0 (Suc x) (Dy img))) (int (Dy img)) (int y)"
      fromF "Dy img", unfolded Let_def, simplified]
  have eq: "blurVerticalWith toF fromF img kern =
     foldl (\<lambda>dst x. foldl (\<lambda>dst y.
                let (r, g, b, a) = blurPixel kern (map toF (scan img x 0 (Suc x) (Dy img))) (int (Dy img)) (int y);
                    j = y * Stride dst + x * 4
                in dst\<lparr>Pix := (Pix dst)[j + 0 := fromF r, j + 1 := fromF g,
                                        j + 2 := fromF b, j + 3 := fromF a]\<rparr>) dst [0..<Dy img])
               (NewNRGBA (Dx img) (Dy img)) [0..<Dx img]"
    by (simp add: blurVerticalWith_def Let_def)
  show "Dx (blurVerticalWith toF fromF img kern) = Dx img"
    and "Dy (blurVerticalWith toF fromF img kern) = Dy img"
    and "wf_image (blurVerticalWith toF fromF img kern)"
    and "\<And>x y c. x < Dx img \<Longrightarrow> y < Dy img \<Longrightarrow> c < 4 \<Longrightarrow>
          sample (blurVerticalWith toF fromF img kern) x y c =
            fromF (quad (blurPixel kern (map toF (scan img x 0 (Suc x) (Dy img)))
                     (int (Dy img)) (int y)) ! c)"
    unfolding eq using O by (simp_all add: wf_image_def Let_def)
qed

section \<open>Images are determined by their samples\<close>

lemma sample_index_decomp:
  fixes w :: nat
  assumes "k < 4 * w * h"
  shows "\<exists>x y c. x < w \<and> y < h \<and> c < 4 \<and> k = y * (4 * w) + x * 4 + c"
proof -
  have w: "0 < w" using assms by (cases w) simp_all
  define y where "y = k div (4 * w)"
  define i where "i = k mod (4 * w)"
  have k: "k = y * (4 * w) + i" by (simp only: y_def i_def div_mult_mod_eq)
  have i: "i < 4 * w" using w by (simp add: i_def)
  have "y < h" using assms w unfolding y_def
    by (simp add: less_mult_imp_div_less mult.commute)
  moreover have "i div 4 < w" using i by simp
  moreover have "i mod 4 < 4" by simp
  moreover have "k = y * (4 * w) + (i div 4) * 4 + i mod 4" using k by simp
  ultimately show ?thesis by blast
qed

lemma nrgba_eqI:
  fixes A B :: "'a nrgba"
  assumes "wf_image A" "wf_image B" "Dx A = Dx B" "Dy A = Dy B"
    and "\<And>x y c. x < Dx A \<Longrightarrow> y < Dy A \<Longrightarrow> c < 4 \<Longrightarrow> sample A x y c = sample B x y c"
  shows "A = B"
proof -
  have "Pix A = Pix B"
  proof (rule nth_equalityI)
    show "length (Pix A) = length (Pix B)" using assms(1-4) by (simp add: wf_image_def)
  next
    fix k assume "k < length (Pix A)"
    then have "k < 4 * Dx A * Dy A" using assms(1) by (simp add: wf_image_def)
    then obtain x y c where "x < Dx A" "y < Dy A" "c < 4" "k = y * (4 * Dx A) + x * 4 + c"
      using sample_index_decomp by blast
    then show "Pix A ! k = Pix B ! k"
      using assms(5) [of x y c] assms(3) by (simp add: sample_def Stride_def)
  qed
  then show ?thesis using assms(3,4) by simp
qed

section \<open>Clone\<close>

lemma scan_all:
  assumes "wf_image img"
  shows "scan img 0 0 (Dx img) (Dy img) = Pix img"
proof (rule nth_equalityI)
  have len: "length (take (4 * Dx img) (drop (y * Stride img) (Pix img))) = 4 * Dx img"
    if "y < Dy img" for y
    using scan_row_length [OF assms that] by (simp add: scan_row)
  then show l: "length (scan img 0 0 (Dx img) (Dy img)) = length (Pix img)"
    using assms by (simp add: scan_def concat_blocks_length [where m = "4 * Dx img"] wf_image_def)
  fix k assume "k < length (scan img 0 0 (Dx img) (Dy img))"
  then have k: "k < 4 * Dx img * Dy img" using l assms by (simp add: wf_image_def)
  then have w: "0 < Dx img" by (cases "Dx img") simp_all
  have y: "k div (4 * Dx img) < Dy img" using k w
    by (simp add: less_mult_imp_div_less mult.commute)
  have "scan img 0 0 (Dx img) (Dy img) ! k =
      take (4 * Dx img) (drop (k div (4 * Dx img) * Stride img) (Pix img)) ! (k mod (4 * Dx img))"
    unfolding scan_def using len k
    by (simp add: concat_blocks_nth [where m = "4 * Dx img"])
  also have "\<dots> = scan img 0 (k div (4 * Dx img)) (Dx img) (Suc (k div (4 * Dx img))) ! (k mod (4 * Dx img))"
    by (simp add: scan_row)
  also have "\<dots> = Pix img ! k"
    using w by (subst scan_row_nth [OF assms y]) (simp_all only: Stride_def div_mult_mod_eq, simp_all)
  finally show "scan img 0 0 (Dx img) (Dy img) ! k = Pix img ! k" .
qed

lemma Clone_id: "wf_image img \<Longrightarrow> Clone img = img"
  by (simp add: Clone_def scan_all)

section \<open>Sharpen, sample by sample\<close>

lemma sharpen_inner:
  fixes dst :: "uint8 nrgba"
  shows "j0 + n \<le> length (Pix dst) \<Longrightarrow>
    (case foldl (\<lambda>(dst, j) i.
             (dst\<lparr>Pix := (Pix dst)[j := sharpenSample (sl ! i) (bl ! j)]\<rparr>, j + 1))
           (dst, j0) [0..<n] of
       (D, j) \<Rightarrow> j = j0 + n \<and> Dx D = Dx dst \<and> Dy D = Dy dst \<and>
          length (Pix D) = length (Pix dst) \<and>
          (\<forall>k < length (Pix dst). Pix D ! k =
              (if j0 \<le> k \<and> k < j0 + n then sharpenSample (sl ! (k - j0)) (bl ! k)
               else Pix dst ! k)))"
proof (induction n)
  case 0
  then show ?case by auto
next
  case (Suc n)
  let ?body = "\<lambda>(dst, j) i.
             (dst\<lparr>Pix := (Pix dst)[j := sharpenSample (sl ! i) (bl ! j)]\<rparr>, j + 1)"
  obtain D j where Dj: "foldl ?body (dst, j0) [0..<n] = (D, j)"
    by (cases "foldl ?body (dst, j0) [0..<n]") auto
  have IH: "j = j0 + n" "Dx D = Dx dst" "Dy D = Dy dst" "length (Pix D) = length (Pix dst)"
    "\<And>k. k < length (Pix dst) \<Longrightarrow> Pix D ! k =
              (if j0 \<le> k \<and> k < j0 + n then sharpenSample (sl ! (k - j0)) (bl ! k)
               else Pix dst ! k)"
    using Suc Dj by simp_all
  have "foldl ?body (dst, j0) [0..<Suc n] = ?body (D, j) n"
    unfolding Dj [symmetric] by (simp only: upt_Suc_append le0 foldl_append foldl.simps)
  then have step: "foldl ?body (dst, j0) [0..<Suc n] =
      (D\<lparr>Pix := (Pix D)[j := sharpenSample (sl ! n) (bl ! j)]\<rparr>, j + 1)"
    by simp
  show ?case unfolding step using IH Suc.prems
    by (auto simp: nth_list_update)
qed

lemma sharpen_outer:
  fixes bl :: "uint8 list"
  assumes len: "\<And>y. y < h \<Longrightarrow> length (row y) = 4 * w"
  shows "n \<le> h \<Longrightarrow>
    (let D = foldl (\<lambda>dst y.
                let scanLine = row y;
                    j = y * Stride dst
                in fst (foldl (\<lambda>(dst, j) i.
                          (dst\<lparr>Pix := (Pix dst)[j := sharpenSample (scanLine ! i) (bl ! j)]\<rparr>,
                           j + 1))
                        (dst, j) [0..<w * 4]))
              (NewNRGBA w h) [0..<n]
     in Dx D = w \<and> Dy D = h \<and> length (Pix D) = 4 * w * h \<and>
        (\<forall>y i. y < n \<longrightarrow> i < 4 * w \<longrightarrow> Pix D ! (y * (4 * w) + i)
            = sharpenSample (row y ! i) (bl ! (y * (4 * w) + i))))"
proof (induction n)
  case 0
  then show ?case by (simp add: NewNRGBA_def)
next
  case (Suc n)
  let ?body = "\<lambda>dst y.
                let scanLine = row y;
                    j = y * Stride dst
                in fst (foldl (\<lambda>(dst, j) i.
                          (dst\<lparr>Pix := (Pix dst)[j := sharpenSample (scanLine ! i) (bl ! j)]\<rparr>,
                           j + 1))
                        (dst, j) [0..<w * 4])"
  define D where "D = foldl ?body (NewNRGBA w h) [0..<n]"
  have IH: "Dx D = w" "Dy D = h" "length (Pix D) = 4 * w * h"
    "\<And>y i. y < n \<Longrightarrow> i < 4 * w \<Longrightarrow> Pix D ! (y * (4 * w) + i)
            = sharpenSample (row y ! i) (bl ! (y * (4 * w) + i))"
    using Suc unfolding D_def Let_def by simp_all
  have n: "n < h" using Suc.prems by simp
  have step: "foldl ?body (NewNRGBA w h) [0..<Suc n] = ?body D n"
    unfolding D_def by (simp only: upt_Suc_append le0 foldl_append foldl.simps)
  obtain D' j' where D': "foldl (\<lambda>(dst, j) i.
                          (dst\<lparr>Pix := (Pix dst)[j := sharpenSample (row n ! i) (bl ! j)]\<rparr>,
                           j + 1))
                        (D, n * (4 * w)) [0..<w * 4] = (D', j')"
    by (cases "foldl (\<lambda>(dst, j) i.
                          (dst\<lparr>Pix := (Pix dst)[j := sharpenSample (row n ! i) (bl ! j)]\<rparr>,
                           j + 1))
                        (D, n * (4 * w)) [0..<w * 4]") auto
  have fits: "n * (4 * w) + w * 4 \<le> length (Pix D)"
    using row_bound [OF n, of w] IH(3) by (simp add: mult.commute)
  note I = sharpen_inner [OF fits, of "row n" bl, unfolded D', simplified]
  have body: "?body D n = D'"
    using D' by (simp add: Let_def Stride_def IH(1))
  have "Pix D' ! (y * (4 * w) + i) = sharpenSample (row y ! i) (bl ! (y * (4 * w) + i))"
    if "y < Suc n" "i < 4 * w" for y i
  proof -
    have "y < h" using that n by simp
    then have k: "y * (4 * w) + i < length (Pix D)"
      using row_bound [of y h w] that(2) IH(3) by simp
    show ?thesis
    proof (cases "y = n")
      case True
      then show ?thesis using I k that by simp
    next
      case False
      then have yn: "y < n" using that by simp
      then have "Suc y * (4 * w) \<le> n * (4 * w)" by (intro mult_le_mono1) simp
      then have "\<not> n * (4 * w) \<le> y * (4 * w) + i" using that(2) by simp
      then show ?thesis using I k IH(4) [OF yn that(2)] by simp
    qed
  qed
  moreover have "Dx D' = w" "Dy D' = h" "length (Pix D') = 4 * w * h"
    using I IH by simp_all
  ultimately show ?case unfolding step body by (simp only: Let_def) blast
qed

lemma Sharpen_props:
  assumes "wf_image img" "0 < sigma"
  shows "Dx (Sharpen img sigma) = Dx img"
    and "Dy (Sharpen img sigma) = Dy img"
    and "wf_image (Sharpen img sigma)"
    and "\<And>x y c. x < Dx img \<Longrightarrow> y < Dy img \<Longrightarrow> c < 4 \<Longrightarrow>
          sample (Sharpen img sigma) x y c =
            sharpenSample (sample img x y c) (Pix (Blur img sigma) ! (y * (4 * Dx img) + x * 4 + c))"
proof -
  have rlen: "length (scan img 0 y (Dx img) (Suc y)) = 4 * Dx img" if "y < Dy img" for y
    using scan_row_length [OF assms(1) that] .
  note O = sharpen_outer [of "Dy img" "\<lambda>y. scan img 0 y (Dx img) (Suc y)" "Dx img" "Dy img"
      "Pix (Blur img sigma)", OF rlen, unfolded Let_def]
  have eq: "Sharpen img sigma =
     foldl (\<lambda>dst y. fst (foldl (\<lambda>(dst, j) i.
                          (dst\<lparr>Pix := (Pix dst)[j := sharpenSample (scan img 0 y (Dx img) (Suc y) ! i)
                               (Pix (Blur img sigma) ! j)]\<rparr>, j + 1))
                        (dst, y * Stride dst) [0..<Dx img * 4]))
              (NewNRGBA (Dx img) (Dy img)) [0..<Dy img]"
    using assms(2) by (simp add: Sharpen_def Let_def)
  show "Dx (Sharpen img sigma) = Dx img"
    and "Dy (Sharpen img sigma) = Dy img"
    and "wf_image (Sharpen img sigma)"
    unfolding eq using O by (simp_all add: wf_image_def)
  fix x y c :: nat assume xyc: "x < Dx img" "y < Dy img" "c < 4"
  then have i: "x * 4 + c < 4 * Dx img" by simp
  have "sample (Sharpen img sigma) x y c =
      sharpenSample (scan img 0 y (Dx img) (Suc y) ! (x * 4 + c))
        (Pix (Blur img sigma) ! (y * (4 * Dx img) + (x * 4 + c)))"
    unfolding eq using O xyc i by (simp add: sample_def Stride_def add.assoc)
  also have "scan img 0 y (Dx img) (Suc y) ! (x * 4 + c) = sample img x y c"
    using scan_row_nth [OF assms(1) xyc(2) i] by (simp add: sample_def add.assoc)
  finally show "sample (Sharpen img sigma) x y c =
            sharpenSample (sample img x y c) (Pix (Blur img sigma) ! (y * (4 * Dx img) + x * 4 + c))"
    by (simp add: add.assoc)
qed

section \<open>Sizes\<close>

lemma foldl_size:
  assumes "\<And>d y. Dx (f d y) = Dx d \<and> Dy (f d y) = Dy d" "Dx d = w" "Dy d = h"
  shows "Dx (foldl f d ys) = w \<and> Dy (foldl f d ys) = h"
  using assms by (induction ys arbitrary: d) simp_all

lemma foldl_fst_size:
  assumes "\<And>d j i. Dx (fst (f (d, j) i)) = Dx d \<and> Dy (fst (f (d, j) i)) = Dy d"
  shows "Dx (fst (foldl f (d, j) is)) = Dx d \<and> Dy (fst (foldl f (d, j) is)) = Dy d"
proof (induction "is" arbitrary: d j)
  case Nil
  then show ?case by simp
next
  case (Cons i "is")
  obtain d' j' where f: "f (d, j) i = (d', j')" by (cases "f (d, j) i") auto
  with assms [of d j i] Cons [of d' j'] show ?case by simp
qed

lemma blurHorizontalWith_size:
  "Dx (blurHorizontalWith toF fromF img kern) = Dx img \<and>
   Dy (blurHorizontalWith toF fromF img kern) = Dy img"
  unfolding blurHorizontalWith_def Let_def
  by (rule foldl_size) (simp_all add: NewNRGBA_def)

lemma blurVerticalWith_size:
  "Dx (blurVerticalWith toF fromF img kern) = Dx img \<and>
   Dy (blurVerticalWith toF fromF img kern) = Dy img"
  unfolding blurVerticalWith_def Let_def
  apply (rule foldl_size)
    apply (rule foldl_size)
      apply (simp_all add: NewNRGBA_def split: prod.splits)
  done

lemma Clone_size: "Dx (Clone img) = Dx img \<and> Dy (Clone img) = Dy img"
  by (simp add: Clone_def)

lemma Blur_size: "Dx (Blur img sigma) = Dx img \<and> Dy (Blur img sigma) = Dy img"
  by (simp add: Blur_def Clone_size blurHorizontal_def blurVertical_def Let_def
      blurHorizontalWith_size blurVerticalWith_size)

lemma Sharpen_size: "Dx (Sharpen img sigma) = Dx img \<and> Dy (Sharpen img sigma) = Dy img"
proof (cases "sigma \<le> 0")
  case True
  then show ?thesis by (simp add: Sharpen_def Clone_size)
next
  case False
  have "Dx (foldl (\<lambda>dst y.
                let scanLine = scan img 0 y (Dx img) (y + 1);
                    j = y * Stride dst
                in fst (foldl (\<lambda>(dst, j) i.
                          (dst\<lparr>Pix := (Pix dst)[j := sharpenSample (scanLine ! i) (Pix (Blur img sigma) ! j)]\<rparr>,
                           j + 1))
                        (dst, j) [0..<Dx img * 4]))
              (NewNRGBA (Dx img) (Dy img)) [0..<Dy img]) = Dx img \<and>
        Dy (foldl (\<lambda>dst y.
                let scanLine = scan img 0 y (Dx img) (y + 1);
                    j = y * Stride dst
                in fst (foldl (\<lambda>(dst, j) i.
                          (dst\<lparr>Pix := (Pix dst)[j := sharpenSample (scanLine ! i) (Pix (Blur img sigma) ! j)]\<rparr>,
                           j + 1))
                        (dst, j) [0..<Dx img * 4]))
              (NewNRGBA (Dx img) (Dy img)) [0..<Dy img]) = Dy img"
    unfolding Let_def
    apply (rule foldl_size)
      apply (rule foldl_fst_size)
      apply (simp_all add: NewNRGBA_def)
    done
  with False show ?thesis by (simp add: Sharpen_def Let_def)
qed

section \<open>Blur and Sharpen keep the image well-formed\<close>

lemma Blur_wf:
  assumes "wf_image img"
  shows "wf_image (Blur img sigma)"
proof (cases "sigma \<le> 0")
  case True
  then show ?thesis using assms by (simp add: Blur_def Clone_id)
next
  case False
  then show ?thesis
    by (simp add: Blur_def Let_def blurVertical_def blurVerticalWith_props(3))
qed

lemma sharpenSample_uint:
  "uint (sharpenSample s bl) = max 0 (min 255 (2 * uint s - uint bl))"
proof -
  define v where "v = max 0 (min 255 (2 * uint s - uint bl))"
  have v: "0 \<le> v" "v \<le> 255" by (simp_all add: v_def)
  define val where "val = push_bit 1 (uint s) - uint bl"
  have val: "val = 2 * uint s - uint bl" by (simp add: val_def)
  have "(if val < 0 then 0 else if val > 255 then 255 else val) = v"
    unfolding v_def val by (simp add: max_def min_def)
  then have "sharpenSample s bl = word_of_int v"
    unfolding sharpenSample_def Let_def val_def by (simp only:)
  moreover have "uint (word_of_int v :: uint8) = v"
    using v by (simp add: uint_word_of_int)
  ultimately show ?thesis by (simp add: v_def)
qed

section \<open>Claims about the sizes, the pass-through and the unsharp mask\<close>

text \<open>
  C6. For every source image and every sigma, positive, zero or negative, the images
  returned by \<open>Blur\<close> and by \<open>Sharpen\<close> have the width and the height of the source.
\<close>

theorem C6_dimensions_preserved:
  "Dx (Blur img sigma) = Dx img \<and> Dy (Blur img sigma) = Dy img \<and>
   Dx (Sharpen img sigma) = Dx img \<and> Dy (Sharpen img sigma) = Dy img"
  by (simp add: Blur_size Sharpen_size)

text \<open>
  C5. For every image and every \<open>sigma \<le> 0\<close>, \<open>Blur\<close> and \<open>Sharpen\<close> return an image equal to
  the source, sample for sample: no filtering takes place.
\<close>

theorem C5_nonpositive_sigma_identity:
  assumes "wf_image img" "sigma \<le> 0"
  shows "Blur img sigma = img \<and> Sharpen img sigma = img"
  using assms by (simp add: Blur_def Sharpen_def Clone_id)

theorem C5_nonpositive_sigma_identity_witness:
  "Blur \<lparr>Pix = [10, 20, 30, 255, 1, 2, 3, 4], Dx = 2, Dy = 1\<rparr> (- 1)
     = \<lparr>Pix = [10, 20, 30, 255, 1, 2, 3, 4 :: uint8], Dx = 2, Dy = 1\<rparr> \<and>
   Sharpen \<lparr>Pix = [10, 20, 30, 255, 1, 2, 3, 4], Dx = 2, Dy = 1\<rparr> 0
     = \<lparr>Pix = [10, 20, 30, 255, 1, 2, 3, 4 :: uint8], Dx = 2, Dy = 1\<rparr>"
  using C5_nonpositive_sigma_identity [of "\<lparr>Pix = [10, 20, 30, 255, 1, 2, 3, 4], Dx = 2, Dy = 1\<rparr>" "- 1"]
    C5_nonpositive_sigma_identity [of "\<lparr>Pix = [10, 20, 30, 255, 1, 2, 3, 4], Dx = 2, Dy = 1\<rparr>" 0]
  by (simp add: wf_image_def)

text \<open>
  C4. For every image and every \<open>sigma > 0\<close>, \<open>Sharpen\<close> computes \<open>Blur img sigma\<close> and
  sets every sample of the result, in each of the four channels alike (alpha included), to
  \<open>2 * original - blurred\<close> clamped to the range from 0 to 255.
\<close>

theorem C4_sharpen_unsharp_mask:
  assumes "wf_image img" "0 < sigma" "x < Dx img" "y < Dy img" "c < 4"
  shows "uint (sample (Sharpen img sigma) x y c) =
           max 0 (min 255 (2 * uint (sample img x y c) - uint (sample (Blur img sigma) x y c)))"
proof -
  have "Pix (Blur img sigma) ! (y * (4 * Dx img) + x * 4 + c) = sample (Blur img sigma) x y c"
    by (simp add: sample_def Stride_def Blur_size)
  then show ?thesis
    using Sharpen_props(4) [OF assms] by (simp add: sharpenSample_uint)
qed

theorem C4_sharpen_unsharp_mask_witness:
  "uint (sample (Sharpen \<lparr>Pix = [10, 20, 30, 255, 1, 2, 3, 4], Dx = 2, Dy = 1\<rparr> 1) 1 0 2) =
     max 0 (min 255 (2 * uint (sample \<lparr>Pix = [10, 20, 30, 255, 1, 2, 3, 4 :: uint8], Dx = 2, Dy = 1\<rparr> 1 0 2)
       - uint (sample (Blur \<lparr>Pix = [10, 20, 30, 255, 1, 2, 3, 4], Dx = 2, Dy = 1\<rparr> 1) 1 0 2)))"
  using C4_sharpen_unsharp_mask [of "\<lparr>Pix = [10, 20, 30, 255, 1, 2, 3, 4], Dx = 2, Dy = 1\<rparr>" 1 1 0 2]
  by (simp add: wf_image_def)

section \<open>The kernel table\<close>

lemma fill_length:
  "length (foldl (\<lambda>ks i. ks[nat i := g i]) ks is) = length ks"
  by (induction "is" arbitrary: ks) simp_all

lemma fill_nth:
  "j < length ks \<Longrightarrow>
   foldl (\<lambda>ks i. ks[nat i := g i]) ks [0..int m - 1] ! j =
     (if j < m then g (int j) else ks ! j)"
proof (induction m)
  case 0
  then show ?case by simp
next
  case (Suc m)
  have "[0..int (Suc m) - 1] = [0..int m - 1] @ [int m]"
    using upto_rec2 [of 0 "int m"] by simp
  then show ?case using Suc
    by (auto simp: fill_length nth_list_update less_Suc_eq)
qed

lemma kernelRadius_pos: "0 < sigma \<Longrightarrow> 1 \<le> kernelRadius sigma"
  unfolding kernelRadius_def by (simp add: less_ceiling_iff [symmetric])

lemma makeKernel_length:
  "length (makeKernel sigma) = nat (kernelRadius sigma + 1)"
  by (simp add: makeKernel_def Let_def fill_length)

lemma makeKernel_nth:
  assumes "int i \<le> kernelRadius sigma"
  shows "makeKernel sigma ! i = gaussianBlurKernel (real i) sigma"
proof -
  define m where "m = nat (kernelRadius sigma + 1)"
  have m: "kernelRadius sigma = int m - 1" "i < m" using assms by (simp_all add: m_def)
  show ?thesis
    unfolding makeKernel_def Let_def m_def [symmetric] m(1)
    using m(2) by (subst fill_nth) simp_all
qed

lemma gaussianBlurKernel_pos: "0 < sigma \<Longrightarrow> 0 < gaussianBlurKernel x sigma"
  by (simp add: gaussianBlurKernel_def)

lemma gaussianBlurKernel_antimono:
  assumes "0 < sigma" "0 \<le> x" "x \<le> y"
  shows "gaussianBlurKernel y sigma \<le> gaussianBlurKernel x sigma"
proof -
  have "x * x \<le> y * y" using assms(2,3) by (simp add: mult_mono)
  then have "- (y * y) / (2 * sigma * sigma) \<le> - (x * x) / (2 * sigma * sigma)"
    using assms(1) by (simp add: divide_right_mono)
  then have "exp (- (y * y) / (2 * sigma * sigma)) \<le> exp (- (x * x) / (2 * sigma * sigma))"
    by simp
  moreover have "0 < sigma * sqrt (2 * pi)" using assms(1) by simp
  ultimately show ?thesis
    unfolding gaussianBlurKernel_def by (simp add: divide_right_mono)
qed

lemma makeKernel_pos:
  assumes "0 < sigma" "i < length (makeKernel sigma)"
  shows "0 < makeKernel sigma ! i"
proof -
  have "int i \<le> kernelRadius sigma" using assms(2) by (simp add: makeKernel_length)
  then show ?thesis using assms(1) by (simp add: makeKernel_nth gaussianBlurKernel_pos)
qed

lemma head_le_sum_list:
  fixes xs :: "real list"
  assumes "xs \<noteq> []" "\<And>i. i < length xs \<Longrightarrow> 0 \<le> xs ! i"
  shows "xs ! 0 \<le> sum_list xs"
proof (cases xs)
  case Nil
  then show ?thesis using assms(1) by simp
next
  case (Cons x ys)
  have "0 \<le> ys ! i" if "i < length ys" for i
    using assms(2) [of "Suc i"] that Cons by simp
  then have "0 \<le> sum_list ys"
    by (intro sum_list_nonneg) (auto simp: in_set_conv_nth)
  then show ?thesis using Cons by simp
qed

section \<open>Claims about the kernel\<close>

text \<open>
  C3. For every \<open>sigma > 0\<close> the kernel builder computes the radius \<open>ceil (3 * sigma)\<close> and
  produces exactly \<open>radius + 1\<close> weights; the weight at the integer distance \<open>x\<close>, for \<open>x\<close>
  from 0 to the radius, is the Gaussian density \<open>exp (- x\<^sup>2 / (2 * sigma\<^sup>2)) / (sigma * sqrt (2 * pi))\<close>.
  The weights are not scaled to sum to 1: when \<open>sigma * sqrt (2 * pi) < 1\<close> the first weight
  alone exceeds 1, and so does the sum of the table.
\<close>

theorem C3_kernel_builder:
  assumes "0 < sigma"
  shows "kernelRadius sigma = \<lceil>3 * sigma\<rceil> \<and>
         length (makeKernel sigma) = nat (kernelRadius sigma) + 1 \<and>
         (\<forall>x. int x \<le> kernelRadius sigma \<longrightarrow>
            makeKernel sigma ! x = exp (- (real x)\<^sup>2 / (2 * sigma\<^sup>2)) / (sigma * sqrt (2 * pi))) \<and>
         (sigma * sqrt (2 * pi) < 1 \<longrightarrow> 1 < sum_list (makeKernel sigma))"
proof (intro conjI allI impI)
  show "kernelRadius sigma = \<lceil>3 * sigma\<rceil>"
    by (simp add: kernelRadius_def mult.commute)
  show len: "length (makeKernel sigma) = nat (kernelRadius sigma) + 1"
    using kernelRadius_pos [OF assms] by (simp add: makeKernel_length)
  show "makeKernel sigma ! x = exp (- (real x)\<^sup>2 / (2 * sigma\<^sup>2)) / (sigma * sqrt (2 * pi))"
    if "int x \<le> kernelRadius sigma" for x
    using that by (simp add: makeKernel_nth gaussianBlurKernel_def power2_eq_square)
  show "1 < sum_list (makeKernel sigma)" if small: "sigma * sqrt (2 * pi) < 1"
  proof -
    have "makeKernel sigma ! 0 = 1 / (sigma * sqrt (2 * pi))"
      using kernelRadius_pos [OF assms] by (simp add: makeKernel_nth gaussianBlurKernel_def)
    moreover have "1 < 1 / (sigma * sqrt (2 * pi))"
      using small assms by simp
    moreover have "makeKernel sigma ! 0 \<le> sum_list (makeKernel sigma)"
    proof (rule head_le_sum_list)
      show "makeKernel sigma \<noteq> []" using len by auto
      show "0 \<le> makeKernel sigma ! i" if "i < length (makeKernel sigma)" for i
        using makeKernel_pos [OF assms that] by simp
    qed
    ultimately show ?thesis by simp
  qed
qed

theorem C3_kernel_builder_witness:
  "kernelRadius (1 / 10) = 1 \<and> length (makeKernel (1 / 10)) = 2 \<and>
   makeKernel (1 / 10) ! 1 = exp (- 50) / (sqrt (2 * pi) / 10) \<and>
   1 < sum_list (makeKernel (1 / 10))"
proof -
  have r: "kernelRadius (1 / 10) = 1" by (simp add: kernelRadius_def)
  have "sqrt (2 * pi) < sqrt 100"
    using pi_less_4 by (intro real_sqrt_less_mono) simp
  then have s: "(1 / 10) * sqrt (2 * pi) < 1" by simp
  have p: "0 < (1 / 10 :: real)" by simp
  note C = C3_kernel_builder [OF p, unfolded r]
  have "makeKernel (1 / 10) ! 1 = exp (- (real 1)\<^sup>2 / (2 * (1 / 10)\<^sup>2)) / ((1 / 10) * sqrt (2 * pi))"
    using C by simp
  then have "makeKernel (1 / 10) ! 1 = exp (- 50) / (sqrt (2 * pi) / 10)"
    by (simp add: power2_eq_square)
  then show ?thesis using C s r by simp
qed

text \<open>
  C9. For every \<open>sigma > 0\<close> the weights of the kernel are non-negative and do not increase
  with the index: \<open>kernel[i] \<ge> kernel[i + 1] \<ge> 0\<close> for every \<open>i\<close> from 0 below the radius.
\<close>

theorem C9_kernel_nonincreasing:
  assumes "0 < sigma" "int i < kernelRadius sigma"
  shows "makeKernel sigma ! (i + 1) \<le> makeKernel sigma ! i \<and> 0 \<le> makeKernel sigma ! (i + 1)"
proof -
  have "makeKernel sigma ! i = gaussianBlurKernel (real i) sigma"
    "makeKernel sigma ! (i + 1) = gaussianBlurKernel (real (i + 1)) sigma"
    using assms(2) by (simp_all add: makeKernel_nth)
  moreover have "gaussianBlurKernel (real (i + 1)) sigma \<le> gaussianBlurKernel (real i) sigma"
    using assms(1) by (intro gaussianBlurKernel_antimono) simp_all
  moreover have "0 < gaussianBlurKernel (real (i + 1)) sigma"
    using assms(1) by (rule gaussianBlurKernel_pos)
  ultimately show ?thesis by simp
qed

theorem C9_kernel_nonincreasing_witness:
  "makeKernel 1 ! 3 \<le> makeKernel 1 ! 2 \<and> 0 \<le> makeKernel 1 ! 3"
  using C9_kernel_nonincreasing [of 1 2] by (simp add: kernelRadius_def)

end
